theory Spec2Isabelle
  imports Complex_Main "HOL-Library.Sublist"
begin

section \<open>Uniform cost search on an occupancy grid\<close>

text \<open>
  The notebook \<^verbatim>\<open>Course02/Configuration-Space.ipynb\<close> holds the cells of three
  exercises: \<^verbatim>\<open>create_grid\<close> (rasterising obstacles), the \<^verbatim>\<open>Action\<close> enum
  with \<^verbatim>\<open>valid_actions\<close>, and \<^verbatim>\<open>uniform_cost\<close> (search and path retracing).
  Python ints are modelled as \<open>int\<close>, exceptions as the left summand of a sum type. The
  costs of the actions are real numbers; the numbers of \<^verbatim>\<open>create_grid\<close> belong to an
  arithmetic that is a parameter of its model.
\<close>

subsection \<open>Errors\<close>

datatype error = IndexError | KeyError | ValueError | OverflowError

definition bind_err :: "'e + 'a \<Rightarrow> ('a \<Rightarrow> 'e + 'b) \<Rightarrow> 'e + 'b" where
  "bind_err r f = (case r of Inl e \<Rightarrow> Inl e | Inr v \<Rightarrow> f v)"

subsection \<open>Actions\<close>

text \<open>The members of the enum \<^verbatim>\<open>Action\<close>, with the source's spelling \<^verbatim>\<open>UP_LEFL\<close>.\<close>

datatype action = LEFT | RIGHT | UP | DOWN | UP_LEFL | UP_RIGHT | DOWN_LEFT | DOWN_RIGHT

type_synonym cell = "int \<times> int"

fun delta :: "action \<Rightarrow> int \<times> int" where
  "delta LEFT = (0, -1)"
| "delta RIGHT = (0, 1)"
| "delta UP = (-1, 0)"
| "delta DOWN = (1, 0)"
| "delta UP_LEFL = (-1, -1)"
| "delta UP_RIGHT = (-1, 1)"
| "delta DOWN_LEFT = (1, -1)"
| "delta DOWN_RIGHT = (1, 1)"

fun cost :: "action \<Rightarrow> real" where
  "cost LEFT = 1"
| "cost RIGHT = 1"
| "cost UP = 1"
| "cost DOWN = 1"
| "cost UP_LEFL = sqrt 2"
| "cost UP_RIGHT = sqrt 2"
| "cost DOWN_LEFT = sqrt 2"
| "cost DOWN_RIGHT = sqrt 2"

text \<open>\<^verbatim>\<open>(current_node[0] + delta[0], current_node[1] + delta[1])\<close>\<close>

definition move :: "cell \<Rightarrow> action \<Rightarrow> cell" where
  "move c a = (fst c + fst (delta a), snd c + snd (delta a))"

subsection \<open>Two-dimensional arrays\<close>

text \<open>
  A two-dimensional numpy array is a list of rows. \<open>shape0\<close> and \<open>shape1\<close> are
  \<^verbatim>\<open>grid.shape[0]\<close> and \<^verbatim>\<open>grid.shape[1]\<close>; \<open>getitem g i j\<close> is \<^verbatim>\<open>grid[i, j]\<close>:
  an index \<open>i\<close> with \<open>- n \<le> i < 0\<close> counts from the end, an index outside
  \<open>- n \<le> i < n\<close> raises \<^verbatim>\<open>IndexError\<close>.
\<close>

definition shape0 :: "'a list list \<Rightarrow> int" where
  "shape0 g = int (length g)"

definition shape1 :: "'a list list \<Rightarrow> int" where
  "shape1 g = (case g of [] \<Rightarrow> 0 | r # _ \<Rightarrow> int (length r))"

definition wrap_index :: "int \<Rightarrow> int \<Rightarrow> nat" where
  "wrap_index n i = nat (if i < 0 then i + n else i)"

definition getitem :: "'a list list \<Rightarrow> int \<Rightarrow> int \<Rightarrow> error + 'a" where
  "getitem g i j =
     (if - shape0 g \<le> i \<and> i < shape0 g \<and> - shape1 g \<le> j \<and> j < shape1 g
      then Inr (g ! wrap_index (shape0 g) i ! wrap_index (shape1 g) j)
      else Inl IndexError)"

text \<open>The grids the search is run on: every row has the same length.\<close>

definition rect :: "'a list list \<Rightarrow> bool" where
  "rect g = list_all (\<lambda>r. int (length r) = shape1 g) g"

text \<open>A cell is valid when it lies inside the grid.\<close>

definition in_bounds :: "'a list list \<Rightarrow> cell \<Rightarrow> bool" where
  "in_bounds g c = (0 \<le> fst c \<and> fst c < shape0 g \<and> 0 \<le> snd c \<and> snd c < shape1 g)"

text \<open>The value stored at a valid cell.\<close>

definition cell_value :: "'a list list \<Rightarrow> cell \<Rightarrow> 'a" where
  "cell_value g c = g ! nat (fst c) ! nat (snd c)"

text \<open>The data model's invariant on an occupancy grid: every value is 0 or 1.\<close>

definition binary :: "int list list \<Rightarrow> bool" where
  "binary g = list_all (list_all (\<lambda>v. v = 0 \<or> v = 1)) g"

subsection \<open>\<^verbatim>\<open>valid_actions\<close>\<close>

text \<open>\<^verbatim>\<open>grid[i, j] == 1\<close>\<close>

definition is_one :: "int list list \<Rightarrow> int \<Rightarrow> int \<Rightarrow> error + bool" where
  "is_one g i j = bind_err (getitem g i j) (\<lambda>v. Inr (v = 1))"

text \<open>\<^verbatim>\<open>a or b\<close>: the right operand is evaluated only when the left one is false.\<close>

definition por :: "bool \<Rightarrow> error + bool \<Rightarrow> error + bool" where
  "por a b = (if a then Inr True else b)"

text \<open>\<^verbatim>\<open>if c: valid.remove(a)\<close>\<close>

definition drop_when :: "error + bool \<Rightarrow> action \<Rightarrow> action list \<Rightarrow> error + action list" where
  "drop_when c a valid = bind_err c (\<lambda>b. Inr (if b then remove1 a valid else valid))"

definition valid_actions :: "int list list \<Rightarrow> cell \<Rightarrow> error + action list" where
  "valid_actions g current_node =
     (let valid = [UP, LEFT, RIGHT, DOWN, UP_LEFL, UP_RIGHT, DOWN_LEFT, DOWN_RIGHT];
          n = shape0 g - 1; m = shape1 g - 1;
          x = fst current_node; y = snd current_node
      in bind_err (drop_when (por (x - 1 < 0) (is_one g (x - 1) y)) UP valid) (\<lambda>valid.
         bind_err (drop_when (por (x + 1 > n) (is_one g (x + 1) y)) DOWN valid) (\<lambda>valid.
         bind_err (drop_when (por (y - 1 < 0) (is_one g x (y - 1))) LEFT valid) (\<lambda>valid.
         bind_err (drop_when (por (y + 1 > m) (is_one g x (y + 1))) RIGHT valid) (\<lambda>valid.
         bind_err (drop_when (por (x - 1 < 0 \<or> y - 1 < 0) (is_one g (x - 1) (y - 1))) UP_LEFL valid) (\<lambda>valid.
         bind_err (drop_when (por (x - 1 < 0 \<or> y + 1 > m) (is_one g (x - 1) (y + 1))) UP_RIGHT valid) (\<lambda>valid.
         bind_err (drop_when (por (x + 1 > n \<or> y - 1 < 0) (is_one g (x + 1) (y - 1))) DOWN_LEFT valid) (\<lambda>valid.
         bind_err (drop_when (por (x + 1 > n \<or> y + 1 > m) (is_one g (x + 1) (y + 1))) DOWN_RIGHT valid) (\<lambda>valid.
         Inr valid)))))))))"

subsection \<open>\<^verbatim>\<open>uniform_cost\<close>\<close>

text \<open>
  The elements of the Python set \<^verbatim>\<open>visited\<close>. It is created by \<^verbatim>\<open>set(start)\<close>,
  which collects the two coordinates of the tuple \<^verbatim>\<open>start\<close>, and is extended by
  \<^verbatim>\<open>visited.add(next_node)\<close> with tuples; an int never equals a tuple.
\<close>

datatype pyval = PInt int | PCell cell

type_synonym branch = "cell \<rightharpoonup> real \<times> cell \<times> action"

record search =
  queue :: "(cell \<times> real) list"
  visited :: "pyval set"
  branch :: branch

text \<open>The state before the loop: \<^verbatim>\<open>queue.put((start, 0)); visited = set(start); branch = {}\<close>.\<close>

definition init :: "cell \<Rightarrow> search" where
  "init start = \<lparr>queue = [(start, 0)], visited = {PInt (fst start), PInt (snd start)},
                 branch = Map.empty\<rparr>"

text \<open>The body of the loop over the actions, for one action.\<close>

definition visit :: "cell \<Rightarrow> real \<Rightarrow> search \<Rightarrow> action \<Rightarrow> search" where
  "visit current_node current_cost s a =
     (let next_node = move current_node a;
          new_cost = current_cost + cost a
      in if PCell next_node \<notin> visited s
         then \<lparr>queue = queue s @ [(next_node, new_cost)],
               visited = insert (PCell next_node) (visited s),
               branch = (branch s)(next_node \<mapsto> (new_cost, current_node, a))\<rparr>
         else s)"

definition expand :: "cell \<Rightarrow> real \<Rightarrow> action list \<Rightarrow> search \<Rightarrow> search" where
  "expand current_node current_cost acts s = foldl (visit current_node current_cost) s acts"

text \<open>
  The \<^verbatim>\<open>while not queue.empty()\<close> loop. It returns \<^verbatim>\<open>found\<close> and \<^verbatim>\<open>branch\<close>;
  \<open>None\<close> stands for a loop that does not end.
\<close>

partial_function (option) search_loop ::
  "int list list \<Rightarrow> cell \<Rightarrow> search \<Rightarrow> (error + bool \<times> branch) option" where
  "search_loop g goal s =
     (case queue s of
        [] \<Rightarrow> Some (Inr (False, branch s))
      | (current_node, current_cost) # q \<Rightarrow>
          if current_node = goal then Some (Inr (True, branch s))
          else (case valid_actions g current_node of
                  Inl e \<Rightarrow> Some (Inl e)
                | Inr acts \<Rightarrow>
                    search_loop g goal (expand current_node current_cost acts (s\<lparr>queue := q\<rparr>))))"

text \<open>\<^verbatim>\<open>branch[n]\<close>\<close>

definition lookup :: "branch \<Rightarrow> cell \<Rightarrow> error + real \<times> cell \<times> action" where
  "lookup b n = (case b n of None \<Rightarrow> Inl KeyError | Some e \<Rightarrow> Inr e)"

text \<open>
  The loop \<^verbatim>\<open>while branch[n][1] != start\<close> with the \<^verbatim>\<open>path.append\<close> that follows
  it; \<open>path\<close> is the list built so far, from the goal backwards.
\<close>

partial_function (option) retrace ::
  "branch \<Rightarrow> cell \<Rightarrow> cell \<Rightarrow> action list \<Rightarrow> (error + action list) option" where
  "retrace b start n path =
     (case lookup b n of
        Inl e \<Rightarrow> Some (Inl e)
      | Inr (c, parent, a) \<Rightarrow>
          if parent \<noteq> start then retrace b start parent (path @ [a])
          else Some (Inr (path @ [a])))"

text \<open>The part of \<^verbatim>\<open>uniform_cost\<close> after the search loop.\<close>

definition reconstruct ::
  "bool \<Rightarrow> branch \<Rightarrow> cell \<Rightarrow> cell \<Rightarrow> (error + action list \<times> real) option" where
  "reconstruct found b start goal =
     (if found then
        (case lookup b goal of
           Inl e \<Rightarrow> Some (Inl e)
         | Inr (path_cost, _, _) \<Rightarrow>
             (case retrace b start goal [] of
                None \<Rightarrow> None
              | Some (Inl e) \<Rightarrow> Some (Inl e)
              | Some (Inr path) \<Rightarrow> Some (Inr (rev path, path_cost))))
      else Some (Inr ([], 0)))"

definition uniform_cost ::
  "int list list \<Rightarrow> cell \<Rightarrow> cell \<Rightarrow> (error + action list \<times> real) option" where
  "uniform_cost g start goal =
     (case search_loop g goal (init start) of
        None \<Rightarrow> None
      | Some (Inl e) \<Rightarrow> Some (Inl e)
      | Some (Inr (found, b)) \<Rightarrow> reconstruct found b start goal)"

text \<open>The grid of the notebook's run.\<close>

definition example_grid :: "int list list" where
  "example_grid =
     [[0, 1, 0, 0, 0, 0],
      [0, 1, 0, 1, 0, 0],
      [0, 1, 0, 0, 0, 0],
      [0, 1, 0, 0, 1, 0],
      [0, 0, 0, 1, 0, 0]]"

subsection \<open>\<^verbatim>\<open>create_grid\<close>\<close>






















subsection \<open>Notions used by the statements\<close>

text \<open>The list \<^verbatim>\<open>valid_actions\<close> starts from, in the order of the source.\<close>

definition source_order :: "action list" where
  "source_order = [UP, LEFT, RIGHT, DOWN, UP_LEFL, UP_RIGHT, DOWN_LEFT, DOWN_RIGHT]"

text \<open>The order the specification gives for the same list.\<close>

definition spec_order :: "action list" where
  "spec_order = [UP, DOWN, LEFT, RIGHT, UP_LEFL, UP_RIGHT, DOWN_LEFT, DOWN_RIGHT]"

text \<open>The destination of an action is inside the grid and not an obstacle.\<close>

definition free_dest :: "int list list \<Rightarrow> cell \<Rightarrow> action \<Rightarrow> bool" where
  "free_dest g c a = (in_bounds g (move c a) \<and> cell_value g (move c a) \<noteq> 1)"

text \<open>
  One move on the 8-connected grid: \<open>d\<close> is one of the eight neighbours of \<open>c\<close>, inside
  the grid and not an obstacle. A cell is reachable when a chain of such moves leads to it.
\<close>

definition free_step :: "int list list \<Rightarrow> cell \<Rightarrow> cell \<Rightarrow> bool" where
  "free_step g c d =
     (in_bounds g d \<and> cell_value g d \<noteq> 1 \<and> d \<noteq> c \<and>
      \<bar>fst d - fst c\<bar> \<le> 1 \<and> \<bar>snd d - snd c\<bar> \<le> 1)"

definition reachable :: "int list list \<Rightarrow> cell \<Rightarrow> cell \<Rightarrow> bool" where
  "reachable g start goal = rtranclp (free_step g) start goal"

text \<open>Applying the deltas of a sequence of actions in order.\<close>

definition walk :: "cell \<Rightarrow> action list \<Rightarrow> cell" where
  "walk c path = foldl move c path"

text \<open>The sum of the costs of the actions of a path.\<close>

definition total_cost :: "action list \<Rightarrow> real" where
  "total_cost path = sum_list (map cost path)"

text \<open>
  \<open>traces b start c path\<close>: following the parents recorded in \<open>b\<close> from \<open>c\<close> leads to
  \<open>start\<close> along \<open>path\<close> (read from \<open>start\<close> to \<open>c\<close>), every entry holding the cost of
  its parent plus the cost of its action.
\<close>

inductive traces :: "branch \<Rightarrow> cell \<Rightarrow> cell \<Rightarrow> action list \<Rightarrow> bool" for b start where
  first: "b c = Some (0 + cost a, start, a) \<Longrightarrow> c = move start a \<Longrightarrow> traces b start c [a]"
| later: "traces b start p path \<Longrightarrow> p \<noteq> start \<Longrightarrow> b p = Some (k, p', a') \<Longrightarrow>
          b c = Some (k + cost a, p, a) \<Longrightarrow> c = move p a \<Longrightarrow> traces b start c (path @ [a])"

text \<open>The invariant of the search loop, and the quantity that decreases with each round.\<close>

definition inv :: "int list list \<Rightarrow> cell \<Rightarrow> search \<Rightarrow> bool" where
  "inv g start s =
     ((\<forall>c. PCell c \<in> visited s \<longrightarrow> in_bounds g c) \<and>
      (\<forall>c k. (c, k) \<in> set (queue s) \<longrightarrow>
          in_bounds g c \<and> reachable g start c \<and>
          (c = start \<or> (\<exists>p a. branch s c = Some (k, p, a)))) \<and>
      (\<forall>c k p a. branch s c = Some (k, p, a) \<longrightarrow>
          PCell c \<in> visited s \<and> (\<exists>path. traces (branch s) start c path)))"

definition start_done :: "int list list \<Rightarrow> cell \<Rightarrow> search \<Rightarrow> bool" where
  "start_done g start s = (\<forall>a. free_dest g start a \<longrightarrow> PCell (move start a) \<in> visited s)"

definition unvisited :: "int list list \<Rightarrow> search \<Rightarrow> cell set" where
  "unvisited g s = {c \<in> {0..<shape0 g} \<times> {0..<shape1 g}. PCell c \<notin> visited s}"

definition rounds :: "int list list \<Rightarrow> search \<Rightarrow> nat" where
  "rounds g s = 2 * card (unvisited g s) + length (queue s)"

text \<open>\<^verbatim>\<open>grid[c] = v\<close> for a cell inside the grid.\<close>

definition set_cell :: "'a list list \<Rightarrow> cell \<Rightarrow> 'a \<Rightarrow> 'a list list" where
  "set_cell g c v = g[nat (fst c) := (g ! nat (fst c))[nat (snd c) := v]]"

text \<open>A grid whose cell \<open>(0, 2)\<close> has only obstacles as neighbours.\<close>

definition enclosed_grid :: "int list list" where
  "enclosed_grid = [[0, 1, 0], [0, 1, 1]]"

text \<open>Every action of a path, taken in order from \<open>c\<close>, leads to a free cell of the grid.\<close>

fun free_path :: "int list list \<Rightarrow> cell \<Rightarrow> action list \<Rightarrow> bool" where
  "free_path g c [] = True"
| "free_path g c (a # path) = (free_dest g c a \<and> free_path g (move c a) path)"

text \<open>
  Two more facts the loop maintains: a discovered cell is waiting in the queue or has been
  expanded without being the goal, and every recorded action led to a free cell.
\<close>

definition settled :: "int list list \<Rightarrow> cell \<Rightarrow> cell \<Rightarrow> search \<Rightarrow> bool" where
  "settled g start goal s =
     (\<forall>c. c = start \<or> PCell c \<in> visited s \<longrightarrow>
          c \<in> fst ` set (queue s) \<or>
          (c \<noteq> goal \<and> (\<forall>a. free_dest g c a \<longrightarrow> PCell (move c a) \<in> visited s)))"

definition free_branch :: "int list list \<Rightarrow> branch \<Rightarrow> bool" where
  "free_branch g b = (\<forall>c k p a. b c = Some (k, p, a) \<longrightarrow> free_dest g p a)"

section \<open>Properties of \<^verbatim>\<open>valid_actions\<close>\<close>


lemma is_one_in_bounds:
  "in_bounds g (i, j) \<Longrightarrow> is_one g i j = Inr (cell_value g (i, j) = 1)"
  by (simp add: is_one_def getitem_def in_bounds_def wrap_index_def cell_value_def bind_err_def)

lemma guard_eq:
  "(\<not> a \<Longrightarrow> in_bounds g (i, j)) \<Longrightarrow>
   por a (is_one g i j) = Inr (\<not> (\<not> a \<and> cell_value g (i, j) \<noteq> 1))"
  by (cases a) (simp_all add: por_def is_one_in_bounds)

lemma drop_when_Inr: "drop_when (Inr b) a valid = Inr (if b then remove1 a valid else valid)"
  by (simp add: drop_when_def bind_err_def)

lemma bind_err_Inr: "bind_err (Inr v) f = f v"
  by (simp add: bind_err_def)

lemma drop_chain:
  "(if \<not> P DOWN_RIGHT then remove1 DOWN_RIGHT else id)
     ((if \<not> P DOWN_LEFT then remove1 DOWN_LEFT else id)
     ((if \<not> P UP_RIGHT then remove1 UP_RIGHT else id)
     ((if \<not> P UP_LEFL then remove1 UP_LEFL else id)
     ((if \<not> P RIGHT then remove1 RIGHT else id)
     ((if \<not> P LEFT then remove1 LEFT else id)
     ((if \<not> P DOWN then remove1 DOWN else id)
     ((if \<not> P UP then remove1 UP else id) source_order)))))))
   = filter P source_order"
  by (simp add: source_order_def)

text \<open>
  On a cell inside the grid no index is out of range, and the eight removals amount to
  filtering the initial list.
\<close>

lemma valid_actions_filter:
  assumes "in_bounds g c"
  shows "valid_actions g c = Inr (filter (free_dest g c) source_order)"
proof -
  obtain x y where c: "c = (x, y)" by (cases c)
  have b: "0 \<le> x" "x < shape0 g" "0 \<le> y" "y < shape1 g"
    using assms by (simp_all add: in_bounds_def c)
  have u: "por (x - 1 < 0) (is_one g (x - 1) y) = Inr (\<not> free_dest g c UP)"
    using b by (subst guard_eq) (auto simp: in_bounds_def free_dest_def move_def c)
  have d: "por (x + 1 > shape0 g - 1) (is_one g (x + 1) y) = Inr (\<not> free_dest g c DOWN)"
    using b by (subst guard_eq) (auto simp: in_bounds_def free_dest_def move_def c)
  have l: "por (y - 1 < 0) (is_one g x (y - 1)) = Inr (\<not> free_dest g c LEFT)"
    using b by (subst guard_eq) (auto simp: in_bounds_def free_dest_def move_def c)
  have r: "por (y + 1 > shape1 g - 1) (is_one g x (y + 1)) = Inr (\<not> free_dest g c RIGHT)"
    using b by (subst guard_eq) (auto simp: in_bounds_def free_dest_def move_def c)
  have ul: "por (x - 1 < 0 \<or> y - 1 < 0) (is_one g (x - 1) (y - 1))
            = Inr (\<not> free_dest g c UP_LEFL)"
    using b by (subst guard_eq) (auto simp: in_bounds_def free_dest_def move_def c)
  have ur: "por (x - 1 < 0 \<or> y + 1 > shape1 g - 1) (is_one g (x - 1) (y + 1))
            = Inr (\<not> free_dest g c UP_RIGHT)"
    using b by (subst guard_eq) (auto simp: in_bounds_def free_dest_def move_def c)
  have dl: "por (x + 1 > shape0 g - 1 \<or> y - 1 < 0) (is_one g (x + 1) (y - 1))
            = Inr (\<not> free_dest g c DOWN_LEFT)"
    using b by (subst guard_eq) (auto simp: in_bounds_def free_dest_def move_def c)
  have dr: "por (x + 1 > shape0 g - 1 \<or> y + 1 > shape1 g - 1) (is_one g (x + 1) (y + 1))
            = Inr (\<not> free_dest g c DOWN_RIGHT)"
    using b by (subst guard_eq) (auto simp: in_bounds_def free_dest_def move_def c)
  have "valid_actions g c = Inr ((if \<not> free_dest g c DOWN_RIGHT then remove1 DOWN_RIGHT else id)
     ((if \<not> free_dest g c DOWN_LEFT then remove1 DOWN_LEFT else id)
     ((if \<not> free_dest g c UP_RIGHT then remove1 UP_RIGHT else id)
     ((if \<not> free_dest g c UP_LEFL then remove1 UP_LEFL else id)
     ((if \<not> free_dest g c RIGHT then remove1 RIGHT else id)
     ((if \<not> free_dest g c LEFT then remove1 LEFT else id)
     ((if \<not> free_dest g c DOWN then remove1 DOWN else id)
     ((if \<not> free_dest g c UP then remove1 UP else id) source_order))))))))"
    unfolding valid_actions_def Let_def c fst_conv snd_conv
      u[unfolded c] d[unfolded c] l[unfolded c] r[unfolded c]
      ul[unfolded c] ur[unfolded c] dl[unfolded c] dr[unfolded c]
      drop_when_Inr bind_err_Inr source_order_def
    by (simp only: if_distrib[of "\<lambda>f. f _"] id_apply if_not_P if_P not_not
        split: if_splits cong: if_cong)
  then show ?thesis by (simp only: drop_chain)
qed

section \<open>Paths recorded in \<^verbatim>\<open>branch\<close>\<close>


lemma all_actions: "a \<in> set source_order"
  by (cases a) (simp_all add: source_order_def)

lemma valid_actions_set:
  "in_bounds g c \<Longrightarrow> valid_actions g c = Inr acts \<Longrightarrow> a \<in> set acts \<longleftrightarrow> free_dest g c a"
  by (auto simp: valid_actions_filter all_actions)

lemma free_dest_step: "free_dest g c a \<Longrightarrow> free_step g c (move c a)"
  by (cases c; cases a) (auto simp: free_dest_def free_step_def move_def)

lemma free_step_dest: "free_step g c d \<Longrightarrow> \<exists>a. free_dest g c a \<and> move c a = d"
proof -
  assume h: "free_step g c d"
  obtain x y where c: "c = (x, y)" by (cases c)
  obtain u v where d: "d = (u, v)" by (cases d)
  from h have "u = x - 1 \<or> u = x \<or> u = x + 1" "v = y - 1 \<or> v = y \<or> v = y + 1" "(u, v) \<noteq> (x, y)"
    by (auto simp: free_step_def c d)
  then consider "d = move c UP" | "d = move c DOWN" | "d = move c LEFT" | "d = move c RIGHT"
    | "d = move c UP_LEFL" | "d = move c UP_RIGHT" | "d = move c DOWN_LEFT" | "d = move c DOWN_RIGHT"
    by (auto simp: move_def c d)
  then show ?thesis using h
    by cases (auto simp: free_dest_def free_step_def)
qed

lemma traces_mono: "traces b start c path \<Longrightarrow> b \<subseteq>\<^sub>m b' \<Longrightarrow> traces b' start c path"
proof (induction rule: traces.induct)
  case (first c a)
  have "b' c = Some (0 + cost a, start, a)"
    using first by (metis domI map_le_def)
  then show ?case using first by (auto intro: traces.first)
next
  case (later p path k p' a' c a)
  have "b' p = Some (k, p', a')" "b' c = Some (k + cost a, p, a)"
    using later.hyps later.prems by (metis domI map_le_def)+
  then show ?case using later by (auto intro: traces.later)
qed

lemma traces_retrace:
  "traces b start c path \<Longrightarrow> retrace b start c acc = Some (Inr (acc @ rev path))"
proof (induction arbitrary: acc rule: traces.induct)
  case (first c a)
  then show ?case by (subst retrace.simps) (simp add: lookup_def)
next
  case (later p path k p' a' c a)
  show ?case using later.hyps later.IH[of "acc @ [a]"]
    by (subst retrace.simps) (simp add: lookup_def)
qed

lemma traces_walk: "traces b start c path \<Longrightarrow> walk start path = c"
  by (induction rule: traces.induct) (simp_all add: walk_def)

lemma traces_cost: "traces b start c path \<Longrightarrow> \<exists>p a. b c = Some (total_cost path, p, a)"
proof (induction rule: traces.induct)
  case (first c a)
  then show ?case by (simp add: total_cost_def)
next
  case (later p path k p' a' c a)
  then show ?case by (auto simp: total_cost_def)
qed

section \<open>The invariant of the search loop\<close>


lemma visit_old: "PCell (move cur a) \<in> visited s \<Longrightarrow> visit cur k s a = s"
  by (simp add: visit_def)

lemma visit_new:
  "PCell (move cur a) \<notin> visited s \<Longrightarrow>
   visit cur k s a = \<lparr>queue = queue s @ [(move cur a, k + cost a)],
                      visited = insert (PCell (move cur a)) (visited s),
                      branch = (branch s)(move cur a \<mapsto> (k + cost a, cur, a))\<rparr>"
  by (simp add: visit_def Let_def)

lemma inv_visited: "inv g start s \<Longrightarrow> PCell c \<in> visited s \<Longrightarrow> in_bounds g c"
  unfolding inv_def by blast

lemma inv_queue:
  "inv g start s \<Longrightarrow> (c, k) \<in> set (queue s) \<Longrightarrow>
   in_bounds g c \<and> reachable g start c \<and> (c = start \<or> (\<exists>p a. branch s c = Some (k, p, a)))"
  unfolding inv_def by blast

lemma inv_branch:
  "inv g start s \<Longrightarrow> branch s c = Some (k, p, a) \<Longrightarrow>
   PCell c \<in> visited s \<and> (\<exists>path. traces (branch s) start c path)"
  unfolding inv_def by blast

lemma visit_visited: "visited s \<subseteq> visited (visit cur k s a)"
  by (cases "PCell (move cur a) \<in> visited s") (auto simp: visit_old visit_new)

lemma visit_marks: "PCell (move cur a) \<in> visited (visit cur k s a)"
  by (cases "PCell (move cur a) \<in> visited s") (auto simp: visit_old visit_new)

lemma inv_branch_visited: "inv g start s \<Longrightarrow> PCell c \<notin> visited s \<Longrightarrow> branch s c = None"
proof (cases "branch s c")
  case None
  then show ?thesis by simp
next
  case (Some e)
  assume i: "inv g start s" and n: "PCell c \<notin> visited s"
  obtain k p a where "e = (k, p, a)" by (cases e)
  then have "PCell c \<in> visited s" using inv_branch[OF i, of c k p a] Some by simp
  then show ?thesis using n by simp
qed

lemma visit_branch: "inv g start s \<Longrightarrow> branch s \<subseteq>\<^sub>m branch (visit cur k s a)"
proof (cases "PCell (move cur a) \<in> visited s")
  case True
  then show ?thesis by (simp add: visit_old)
next
  case False
  assume "inv g start s"
  then have "branch s (move cur a) = None" using False by (rule inv_branch_visited)
  then show ?thesis using False by (auto simp: visit_new map_le_def)
qed

lemma finite_unvisited: "finite (unvisited g s)"
  by (simp add: unvisited_def)

lemma visit_rounds:
  assumes "in_bounds g (move cur a)"
  shows "rounds g (visit cur k s a) \<le> rounds g s"
proof (cases "PCell (move cur a) \<in> visited s")
  case True
  then show ?thesis by (simp add: visit_old)
next
  case False
  let ?n = "move cur a"
  have mem: "?n \<in> unvisited g s"
    using assms False by (auto simp: unvisited_def in_bounds_def mem_Times_iff)
  have "unvisited g (visit cur k s a) = unvisited g s - {?n}"
    using False by (auto simp: visit_new unvisited_def)
  then have "card (unvisited g (visit cur k s a)) = card (unvisited g s) - 1"
    using mem by (simp add: finite_unvisited)
  moreover have "0 < card (unvisited g s)"
    using mem finite_unvisited[of g s] by (auto simp: card_gt_0_iff)
  moreover have "length (queue (visit cur k s a)) = Suc (length (queue s))"
    using False by (simp add: visit_new)
  ultimately show ?thesis by (simp add: rounds_def)
qed

lemma visit_inv:
  assumes i: "inv g start s" and f: "free_dest g cur a" and r: "reachable g start cur"
    and src: "(cur = start \<and> k = 0) \<or> (cur \<noteq> start \<and> (\<exists>p a'. branch s cur = Some (k, p, a')))"
  shows "inv g start (visit cur k s a)"
proof (cases "PCell (move cur a) \<in> visited s")
  case True
  then show ?thesis using i by (simp add: visit_old)
next
  case False
  let ?n = "move cur a"
  let ?s = "visit cur k s a"
  have none: "branch s ?n = None" using i False by (rule inv_branch_visited)
  have le: "branch s \<subseteq>\<^sub>m branch ?s" using i by (rule visit_branch)
  have bn: "branch ?s ?n = Some (k + cost a, cur, a)" using False by (simp add: visit_new)
  have bo: "\<And>c. c \<noteq> ?n \<Longrightarrow> branch ?s c = branch s c" using False by (simp add: visit_new)
  have inb: "in_bounds g ?n" using f by (simp add: free_dest_def)
  have rn: "reachable g start ?n"
    using r free_dest_step[OF f] by (simp add: reachable_def)
  have tn: "\<exists>path. traces (branch ?s) start ?n path"
  proof (cases "cur = start")
    case True
    then have "k = 0" using src by simp
    then have "traces (branch ?s) start ?n [a]"
      using bn True by (intro traces.first) simp_all
    then show ?thesis ..
  next
    case ne: False
    then obtain p a' where bc: "branch s cur = Some (k, p, a')" using src by auto
    then obtain path where "traces (branch s) start cur path" using inv_branch[OF i] by blast
    then have t: "traces (branch ?s) start cur path" using le by (rule traces_mono)
    have "cur \<noteq> ?n" using bc none by auto
    then have "branch ?s cur = Some (k, p, a')" using bc bo by simp
    then have "traces (branch ?s) start ?n (path @ [a])"
      using t ne bn by (intro traces.later[where p = cur]) simp_all
    then show ?thesis ..
  qed
  have 1: "\<forall>c. PCell c \<in> visited ?s \<longrightarrow> in_bounds g c"
    using inv_visited[OF i] inb False by (auto simp: visit_new)
  have 2: "\<forall>c k'. (c, k') \<in> set (queue ?s) \<longrightarrow>
          in_bounds g c \<and> reachable g start c \<and>
          (c = start \<or> (\<exists>p a. branch ?s c = Some (k', p, a)))"
  proof (intro allI impI)
    fix c k' assume "(c, k') \<in> set (queue ?s)"
    then consider "(c, k') \<in> set (queue s)" | "c = ?n" "k' = k + cost a"
      using False by (auto simp: visit_new)
    then show "in_bounds g c \<and> reachable g start c \<and>
          (c = start \<or> (\<exists>p a. branch ?s c = Some (k', p, a)))"
    proof cases
      case 1
      then have h: "in_bounds g c" "reachable g start c"
        "c = start \<or> (\<exists>p a. branch s c = Some (k', p, a))"
        using inv_queue[OF i 1] by simp_all
      have "c = start \<or> (\<exists>p a. branch ?s c = Some (k', p, a))"
        using h(3) le by (metis domI map_le_def)
      then show ?thesis using h by simp
    next
      case 2
      then show ?thesis using inb rn bn by simp
    qed
  qed
  have 3: "\<forall>c k' p a. branch ?s c = Some (k', p, a) \<longrightarrow>
          PCell c \<in> visited ?s \<and> (\<exists>path. traces (branch ?s) start c path)"
  proof (intro allI impI)
    fix c k' p a' assume h: "branch ?s c = Some (k', p, a')"
    show "PCell c \<in> visited ?s \<and> (\<exists>path. traces (branch ?s) start c path)"
    proof (cases "c = ?n")
      case True
      then show ?thesis using tn visit_marks[of cur a k s] by simp
    next
      case ne: False
      then have "branch s c = Some (k', p, a')" using h bo by simp
      then have "PCell c \<in> visited s" "\<exists>path. traces (branch s) start c path"
        using inv_branch[OF i] by blast+
      then show ?thesis using le visit_visited[of s cur k a] by (auto intro: traces_mono)
    qed
  qed
  show ?thesis unfolding inv_def using 1 2 3 by blast
qed

lemma expand_Cons: "expand cur k (a # acts) s = expand cur k acts (visit cur k s a)"
  by (simp add: expand_def)

lemma expand_Nil: "expand cur k [] s = s"
  by (simp add: expand_def)

lemma expand_noop:
  "\<forall>a\<in>set acts. PCell (move cur a) \<in> visited s \<Longrightarrow> expand cur k acts s = s"
  by (induction acts) (simp_all add: expand_Nil expand_Cons visit_old)

lemma expand_inv:
  assumes "\<forall>a\<in>set acts. free_dest g cur a" and "reachable g start cur"
    and "(cur = start \<and> k = 0) \<or> (cur \<noteq> start \<and> (\<exists>p a'. branch s cur = Some (k, p, a')))"
    and "inv g start s"
  shows "inv g start (expand cur k acts s) \<and> visited s \<subseteq> visited (expand cur k acts s) \<and>
         (\<forall>a\<in>set acts. PCell (move cur a) \<in> visited (expand cur k acts s)) \<and>
         rounds g (expand cur k acts s) \<le> rounds g s"
  using assms
proof (induction acts arbitrary: s)
  case Nil
  then show ?case by (simp add: expand_Nil)
next
  case (Cons a acts)
  let ?s = "visit cur k s a"
  have f: "free_dest g cur a" using Cons.prems(1) by simp
  have i: "inv g start ?s" using Cons.prems(4) f Cons.prems(2) Cons.prems(3) by (rule visit_inv)
  have le: "branch s \<subseteq>\<^sub>m branch ?s" using Cons.prems(4) by (rule visit_branch)
  have src: "(cur = start \<and> k = 0) \<or> (cur \<noteq> start \<and> (\<exists>p a'. branch ?s cur = Some (k, p, a')))"
    using Cons.prems(3) le by (metis domI map_le_def)
  have ih: "inv g start (expand cur k acts ?s) \<and> visited ?s \<subseteq> visited (expand cur k acts ?s) \<and>
         (\<forall>a\<in>set acts. PCell (move cur a) \<in> visited (expand cur k acts ?s)) \<and>
         rounds g (expand cur k acts ?s) \<le> rounds g ?s"
    using Cons.prems(1) Cons.prems(2) src i by (intro Cons.IH) simp_all
  have r: "rounds g ?s \<le> rounds g s"
    using f by (intro visit_rounds) (simp add: free_dest_def)
  show ?case
    using ih r visit_visited[of s cur k a] visit_marks[of cur a k s]
    by (auto simp: expand_Cons)
qed

section \<open>Termination and result of the search loop\<close>


lemma init_inv: "in_bounds g start \<Longrightarrow> inv g start (init start)"
  by (auto simp: inv_def init_def reachable_def)

lemma inv_pop:
  assumes "inv g start s" and "queue s = e # q"
  shows "inv g start (s\<lparr>queue := q\<rparr>)"
proof -
  have "\<And>c k. (c, k) \<in> set q \<Longrightarrow> (c, k) \<in> set (queue s)" using assms(2) by simp
  then show ?thesis using assms(1) unfolding inv_def by simp blast
qed

lemma rounds_pop: "queue s = e # q \<Longrightarrow> rounds g (s\<lparr>queue := q\<rparr>) < rounds g s"
  by (simp add: rounds_def unvisited_def)

lemma start_done_mono:
  "start_done g start s \<Longrightarrow> visited s \<subseteq> visited s' \<Longrightarrow> start_done g start s'"
  unfolding start_done_def by blast

lemma search_loop_Nil: "queue s = [] \<Longrightarrow> search_loop g goal s = Some (Inr (False, branch s))"
  by (subst search_loop.simps) simp

lemma search_loop_goal:
  "queue s = (goal, k) # q \<Longrightarrow> search_loop g goal s = Some (Inr (True, branch s))"
  by (subst search_loop.simps) simp

lemma search_loop_error:
  "queue s = (cur, k) # q \<Longrightarrow> cur \<noteq> goal \<Longrightarrow> valid_actions g cur = Inl e \<Longrightarrow>
   search_loop g goal s = Some (Inl e)"
  by (subst search_loop.simps) simp

lemma search_loop_step:
  "queue s = (cur, k) # q \<Longrightarrow> cur \<noteq> goal \<Longrightarrow> valid_actions g cur = Inr acts \<Longrightarrow>
   search_loop g goal s = search_loop g goal (expand cur k acts (s\<lparr>queue := q\<rparr>))"
  by (subst search_loop.simps) simp

lemma reachable_closed:
  assumes "reachable g s t" and "s \<in> S" and "\<And>c d. c \<in> S \<Longrightarrow> free_step g c d \<Longrightarrow> d \<in> S"
  shows "t \<in> S"
  using assms(1) unfolding reachable_def
  by (induction rule: rtranclp_induct) (use assms(2,3) in auto)

lemma expand_visited: "visited s \<subseteq> visited (expand cur k acts s)"
proof (induction acts arbitrary: s)
  case Nil
  then show ?case by (simp add: expand_Nil)
next
  case (Cons a acts)
  show ?case using visit_visited[of s cur k a] Cons[of "visit cur k s a"]
    by (auto simp: expand_Cons)
qed

lemma expand_marks: "a \<in> set acts \<Longrightarrow> PCell (move cur a) \<in> visited (expand cur k acts s)"
proof (induction acts arbitrary: s)
  case Nil
  then show ?case by simp
next
  case (Cons b acts)
  show ?case
  proof (cases "a = b")
    case True
    then show ?thesis
      using visit_marks[of cur b k s] expand_visited[of "visit cur k s b" cur k acts]
      by (auto simp: expand_Cons)
  next
    case False
    then show ?thesis using Cons by (simp add: expand_Cons)
  qed
qed

lemma visit_queue:
  "set (queue s) \<subseteq> set (queue (visit cur k s a)) \<and>
   (\<forall>c. PCell c \<in> visited (visit cur k s a) \<longrightarrow>
        PCell c \<in> visited s \<or> c \<in> fst ` set (queue (visit cur k s a)))"
  by (cases "PCell (move cur a) \<in> visited s") (auto simp: visit_old visit_new)

lemma expand_queue:
  "set (queue s) \<subseteq> set (queue (expand cur k acts s)) \<and>
   (\<forall>c. PCell c \<in> visited (expand cur k acts s) \<longrightarrow>
        PCell c \<in> visited s \<or> c \<in> fst ` set (queue (expand cur k acts s)))"
proof (induction acts arbitrary: s)
  case Nil
  then show ?case by (simp add: expand_Nil)
next
  case (Cons a acts)
  let ?s = "visit cur k s a"
  note v = visit_queue[of s cur k a] and e = Cons[of ?s]
  have 1: "set (queue s) \<subseteq> set (queue (expand cur k acts ?s))" using v e by blast
  have 2: "PCell c \<in> visited s \<or> c \<in> fst ` set (queue (expand cur k acts ?s))"
    if "PCell c \<in> visited (expand cur k acts ?s)" for c
  proof -
    from e that have "PCell c \<in> visited ?s \<or> c \<in> fst ` set (queue (expand cur k acts ?s))"
      by blast
    then show ?thesis using v e by blast
  qed
  show ?case using 1 2 by (simp add: expand_Cons)
qed

lemma visit_free_branch:
  "free_branch g (branch s) \<Longrightarrow> free_dest g cur a \<Longrightarrow> free_branch g (branch (visit cur k s a))"
  by (cases "PCell (move cur a) \<in> visited s") (auto simp: visit_old visit_new free_branch_def)

lemma expand_free_branch:
  "free_branch g (branch s) \<Longrightarrow> \<forall>a\<in>set acts. free_dest g cur a \<Longrightarrow>
   free_branch g (branch (expand cur k acts s))"
  by (induction acts arbitrary: s) (simp_all add: expand_Nil expand_Cons visit_free_branch)

text \<open>One round of the loop on a cell that is not the goal.\<close>

lemma loop_round:
  assumes i: "inv g start s" and d: "s = init start \<or> start_done g start s"
    and qs: "queue s = (cur, k) # q"
  shows "inv g start (expand cur k (filter (free_dest g cur) source_order) (s\<lparr>queue := q\<rparr>)) \<and>
         start_done g start (expand cur k (filter (free_dest g cur) source_order) (s\<lparr>queue := q\<rparr>)) \<and>
         rounds g (expand cur k (filter (free_dest g cur) source_order) (s\<lparr>queue := q\<rparr>))
           < rounds g s"
proof -
  let ?acts = "filter (free_dest g cur) source_order"
  let ?s1 = "s\<lparr>queue := q\<rparr>"
  let ?s' = "expand cur k ?acts ?s1"
  have "(cur, k) \<in> set (queue s)" using qs by simp
  from inv_queue[OF i this]
  have r: "reachable g start cur"
    and bc: "cur = start \<or> (\<exists>p a. branch s cur = Some (k, p, a))" by simp_all
  have i1: "inv g start ?s1" using i qs by (rule inv_pop)
  have r1: "rounds g ?s1 < rounds g s" using qs by (rule rounds_pop)
  have fd: "\<forall>a\<in>set ?acts. free_dest g cur a" by simp
  have "inv g start ?s' \<and> start_done g start ?s' \<and> rounds g ?s' \<le> rounds g ?s1"
  proof (cases "s = init start")
    case True
    then have "cur = start" "k = 0" using qs by (simp_all add: init_def)
    then have src: "(cur = start \<and> k = 0) \<or>
        (cur \<noteq> start \<and> (\<exists>p a'. branch ?s1 cur = Some (k, p, a')))" by simp
    from expand_inv[OF fd r src i1]
    have x: "inv g start ?s'" "\<forall>a\<in>set ?acts. PCell (move cur a) \<in> visited ?s'"
      "rounds g ?s' \<le> rounds g ?s1" by simp_all
    have "start_done g start ?s'"
      unfolding start_done_def using x(2) \<open>cur = start\<close> by (simp add: all_actions)
    then show ?thesis using x by simp
  next
    case False
    then have sd: "start_done g start s" using d by simp
    then have sd1: "start_done g start ?s1" by (simp add: start_done_def)
    show ?thesis
    proof (cases "cur = start")
      case True
      then have "\<forall>a\<in>set ?acts. PCell (move cur a) \<in> visited ?s1"
        using sd1 by (simp add: start_done_def)
      then have "?s' = ?s1" by (rule expand_noop)
      then show ?thesis using i1 sd1 by simp
    next
      case False
      then have src: "(cur = start \<and> k = 0) \<or>
        (cur \<noteq> start \<and> (\<exists>p a'. branch ?s1 cur = Some (k, p, a')))" using bc by simp
      from expand_inv[OF fd r src i1]
      have x: "inv g start ?s'" "visited ?s1 \<subseteq> visited ?s'"
        "rounds g ?s' \<le> rounds g ?s1" by simp_all
      then show ?thesis using start_done_mono[OF sd1 x(2)] by simp
    qed
  qed
  then show ?thesis using r1 by simp
qed

lemma settled_cell:
  "settled g start goal s \<Longrightarrow> c = start \<or> PCell c \<in> visited s \<Longrightarrow>
   c \<in> fst ` set (queue s) \<or>
   (c \<noteq> goal \<and> (\<forall>a. free_dest g c a \<longrightarrow> PCell (move c a) \<in> visited s))"
  unfolding settled_def by blast

lemma loop_round_settled:
  assumes c: "settled g start goal s" and qs: "queue s = (cur, k) # q" and ng: "cur \<noteq> goal"
  shows "settled g start goal
           (expand cur k (filter (free_dest g cur) source_order) (s\<lparr>queue := q\<rparr>))"
proof -
  let ?acts = "filter (free_dest g cur) source_order"
  let ?s1 = "s\<lparr>queue := q\<rparr>"
  let ?s' = "expand cur k ?acts ?s1"
  note eq = expand_queue[of ?s1 cur k ?acts]
  have vis: "visited s \<subseteq> visited ?s'" using expand_visited[of ?s1 cur k ?acts] by simp
  have dn: "\<forall>a. free_dest g cur a \<longrightarrow> PCell (move cur a) \<in> visited ?s'"
    by (simp add: expand_marks all_actions)
  have "c \<in> fst ` set (queue ?s') \<or>
        (c \<noteq> goal \<and> (\<forall>a. free_dest g c a \<longrightarrow> PCell (move c a) \<in> visited ?s'))"
    if h: "c = start \<or> PCell c \<in> visited ?s'" for c
  proof (cases "c = start \<or> PCell c \<in> visited s")
    case True
    then consider "c \<in> fst ` set (queue s)"
      | "c \<noteq> goal" "\<forall>a. free_dest g c a \<longrightarrow> PCell (move c a) \<in> visited s"
      using settled_cell[OF c, of c] by blast
    then show ?thesis
    proof cases
      case 1
      then have "c = cur \<or> c \<in> fst ` set q" using qs by auto
      then show ?thesis
      proof
        assume "c = cur"
        then show ?thesis using ng dn by simp
      next
        assume "c \<in> fst ` set q"
        then have "c \<in> fst ` set (queue ?s')" using eq by auto
        then show ?thesis by simp
      qed
    next
      case 2
      then show ?thesis using vis by blast
    qed
  next
    case False
    then have "PCell c \<in> visited ?s'" "PCell c \<notin> visited ?s1" using h by auto
    then have "c \<in> fst ` set (queue ?s')" using eq by blast
    then show ?thesis by simp
  qed
  then show ?thesis unfolding settled_def by blast
qed

lemma search_loop_total:
  assumes "inv g start s" and "s = init start \<or> start_done g start s" and "start \<noteq> goal"
  shows "\<exists>found b. search_loop g goal s = Some (Inr (found, b)) \<and>
           (found \<longrightarrow> reachable g start goal \<and> (\<exists>path. traces b start goal path))"
  using assms(1,2)
proof (induction "rounds g s" arbitrary: s rule: less_induct)
  case less
  note i = less.prems(1)
  show ?case
  proof (cases "queue s")
    case Nil
    then have "search_loop g goal s = Some (Inr (False, branch s))" by (rule search_loop_Nil)
    then show ?thesis by blast
  next
    case (Cons e q)
    obtain cur k where e: "e = (cur, k)" by (cases e)
    have qs: "queue s = (cur, k) # q" using Cons e by simp
    then have "(cur, k) \<in> set (queue s)" by simp
    from inv_queue[OF i this]
    have inb: "in_bounds g cur" and r: "reachable g start cur"
      and bc: "cur = start \<or> (\<exists>p a. branch s cur = Some (k, p, a))" by simp_all
    show ?thesis
    proof (cases "cur = goal")
      case True
      then obtain p a where "branch s goal = Some (k, p, a)" using bc assms(3) by auto
      then have "\<exists>path. traces (branch s) start goal path" using inv_branch[OF i] by blast
      moreover have "search_loop g goal s = Some (Inr (True, branch s))"
        using qs True by (simp add: search_loop_goal)
      ultimately show ?thesis using True r by blast
    next
      case False
      let ?acts = "filter (free_dest g cur) source_order"
      let ?s' = "expand cur k ?acts (s\<lparr>queue := q\<rparr>)"
      have va: "valid_actions g cur = Inr ?acts" using inb by (rule valid_actions_filter)
      have step: "search_loop g goal s = search_loop g goal ?s'"
        using qs False va by (rule search_loop_step)
      from loop_round[OF i less.prems(2) qs]
      have "inv g start ?s'" "?s' = init start \<or> start_done g start ?s'"
        "rounds g ?s' < rounds g s"
        by simp_all
      then have "\<exists>found b. search_loop g goal ?s' = Some (Inr (found, b)) \<and>
           (found \<longrightarrow> reachable g start goal \<and> (\<exists>path. traces b start goal path))"
        using less.hyps[of ?s'] by blast
      then show ?thesis using step by simp
    qed
  qed
qed

text \<open>The loop finds the goal exactly when it is reachable, and records only free moves.\<close>

lemma search_loop_exact:
  assumes "inv g start s" and "s = init start \<or> start_done g start s" and "start \<noteq> goal"
    and "settled g start goal s" and "free_branch g (branch s)"
  shows "\<exists>found b. search_loop g goal s = Some (Inr (found, b)) \<and>
           (found \<longleftrightarrow> reachable g start goal) \<and> free_branch g b"
  using assms(1,2,4,5)
proof (induction "rounds g s" arbitrary: s rule: less_induct)
  case less
  note i = less.prems(1)
  show ?case
  proof (cases "queue s")
    case Nil
    have l: "search_loop g goal s = Some (Inr (False, branch s))" using Nil by (rule search_loop_Nil)
    let ?D = "{c. c = start \<or> PCell c \<in> visited s}"
    have ex: "c \<noteq> goal \<and> (\<forall>a. free_dest g c a \<longrightarrow> PCell (move c a) \<in> visited s)"
      if "c \<in> ?D" for c
      using settled_cell[OF less.prems(3), of c] that Nil by simp
    have "\<not> reachable g start goal"
    proof
      assume r: "reachable g start goal"
      have "goal \<in> ?D"
      proof (rule reachable_closed[OF r])
        show "start \<in> ?D" by simp
      next
        fix c d assume c: "c \<in> ?D" and s: "free_step g c d"
        obtain a where "free_dest g c a" "move c a = d" using free_step_dest[OF s] by blast
        then show "d \<in> ?D" using ex[OF c] by auto
      qed
      then show False using ex by blast
    qed
    then show ?thesis using l less.prems(4) by blast
  next
    case (Cons e q)
    obtain cur k where e: "e = (cur, k)" by (cases e)
    have qs: "queue s = (cur, k) # q" using Cons e by simp
    then have "(cur, k) \<in> set (queue s)" by simp
    from inv_queue[OF i this]
    have inb: "in_bounds g cur" and r: "reachable g start cur" by simp_all
    show ?thesis
    proof (cases "cur = goal")
      case True
      have "search_loop g goal s = Some (Inr (True, branch s))"
        using qs True by (simp add: search_loop_goal)
      then show ?thesis using True r less.prems(4) by blast
    next
      case False
      let ?acts = "filter (free_dest g cur) source_order"
      let ?s' = "expand cur k ?acts (s\<lparr>queue := q\<rparr>)"
      have va: "valid_actions g cur = Inr ?acts" using inb by (rule valid_actions_filter)
      have step: "search_loop g goal s = search_loop g goal ?s'"
        using qs False va by (rule search_loop_step)
      from loop_round[OF i less.prems(2) qs]
      have a: "inv g start ?s'" "?s' = init start \<or> start_done g start ?s'"
        "rounds g ?s' < rounds g s"
        by simp_all
      have b: "settled g start goal ?s'"
        using less.prems(3) qs False by (rule loop_round_settled)
      have c: "free_branch g (branch ?s')"
        using less.prems(4) by (intro expand_free_branch) simp_all
      have "\<exists>found b. search_loop g goal ?s' = Some (Inr (found, b)) \<and>
           (found \<longleftrightarrow> reachable g start goal) \<and> free_branch g b"
        using less.hyps[OF a(3) a(1) a(2) b c] .
      then show ?thesis using step by simp
    qed
  qed
qed

section \<open>The notebook's run and the selection of actions\<close>


lemmas run_simps = valid_actions_def example_grid_def drop_when_def por_def is_one_def getitem_def
  bind_err_def shape0_def shape1_def wrap_index_def expand_def visit_def move_def Let_def
  uniform_cost_def init_def search_loop.simps reconstruct_def lookup_def retrace.simps

lemma sqrt2_bounds: "1.414213562373095 < sqrt 2" "sqrt 2 < 1.414213562373096"
proof -
  show "1.414213562373095 < sqrt 2" by (rule real_less_rsqrt) (simp add: power2_eq_square)
  show "sqrt 2 < 1.414213562373096" by (rule real_less_lsqrt) (simp_all add: power2_eq_square)
qed

text \<open>
  Claim C1. On the 5-by-6 grid of the notebook, from \<open>(0, 0)\<close> to \<open>(4, 4)\<close>, the search
  finds the goal and \<^verbatim>\<open>uniform_cost\<close> returns the seven actions DOWN, DOWN, DOWN,
  DOWN-RIGHT, RIGHT, UP-RIGHT, DOWN-RIGHT with the cost \<open>4 + 3 * sqrt 2\<close>, which is the
  printed float 8.242640687119286 up to rounding.
\<close>

theorem example_run:
  "(\<exists>b. search_loop example_grid (4, 4) (init (0, 0)) = Some (Inr (True, b))) \<and>
   uniform_cost example_grid (0, 0) (4, 4) =
     Some (Inr ([DOWN, DOWN, DOWN, DOWN_RIGHT, RIGHT, UP_RIGHT, DOWN_RIGHT], 4 + 3 * sqrt 2)) \<and>
   \<bar>4 + 3 * sqrt 2 - 8.242640687119286\<bar> < 1 / 10 ^ 14"
proof (intro conjI)
  show "\<exists>b. search_loop example_grid (4, 4) (init (0, 0)) = Some (Inr (True, b))"
    by (simp add: run_simps)
  show "uniform_cost example_grid (0, 0) (4, 4) =
     Some (Inr ([DOWN, DOWN, DOWN, DOWN_RIGHT, RIGHT, UP_RIGHT, DOWN_RIGHT], 4 + 3 * sqrt 2))"
    by (simp add: run_simps)
  have "4 + 3 * sqrt 2 - 8.242640687119286 < 1 / 10 ^ 14"
    using sqrt2_bounds(2) by simp
  moreover have "- (4 + 3 * sqrt 2 - 8.242640687119286) < 1 / 10 ^ 14"
    using sqrt2_bounds(1) by simp
  ultimately show "\<bar>4 + 3 * sqrt 2 - 8.242640687119286\<bar> < 1 / 10 ^ 14"
    by (rule abs_less_iff[THEN iffD2, OF conjI])
qed

text \<open>
  Claim C2. The claim is that the visited set starts as \<open>{start}\<close>, so that the start cell is
  never enqueued again and never gets an entry in \<^verbatim>\<open>branch\<close>. In the source
  \<^verbatim>\<open>set(start)\<close> holds the coordinates of \<open>start\<close>, not the cell: the start cell is not
  in the initial set, and on the notebook's grid it gets the entry \<open>(2, (1, 0), UP)\<close> when
  its neighbour \<open>(1, 0)\<close> is expanded.
\<close>

theorem start_not_in_visited:
  "visited (init (0, 0)) = {PInt 0} \<and> PCell start \<notin> visited (init start) \<and>
   (\<exists>b. search_loop example_grid (4, 4) (init (0, 0)) = Some (Inr (True, b)) \<and>
        b (0, 0) = Some (2, (1, 0), UP))"
  by (simp add: run_simps)

text \<open>
  Claim C3. The claim is that for \<open>start = goal\<close> the result is the empty path with cost 0,
  without reading \<^verbatim>\<open>branch\<close>. In the source the loop sets \<^verbatim>\<open>found\<close> at once with
  \<^verbatim>\<open>branch\<close> still empty, and \<^verbatim>\<open>branch[n][0]\<close> raises \<^verbatim>\<open>KeyError\<close>, on every grid
  and every cell.
\<close>

theorem same_start_goal_raises:
  "search_loop g c (init c) = Some (Inr (True, Map.empty)) \<and>
   uniform_cost g c c = Some (Inl KeyError)"
proof -
  have "search_loop g c (init c) = Some (Inr (True, Map.empty))"
    by (subst search_loop.simps) (simp add: init_def)
  then show ?thesis by (simp add: uniform_cost_def reconstruct_def lookup_def)
qed

lemma binary_cell:
  assumes "rect g" "binary g" "in_bounds g d"
  shows "cell_value g d = 0 \<or> cell_value g d = 1"
proof -
  have i: "nat (fst d) < length g"
    using assms(3) by (auto simp: in_bounds_def shape0_def nat_less_iff)
  then have m: "g ! nat (fst d) \<in> set g" by simp
  then have "int (length (g ! nat (fst d))) = shape1 g"
    using assms(1) by (simp add: rect_def list_all_iff)
  then have j: "nat (snd d) < length (g ! nat (fst d))"
    using assms(3) by (auto simp: in_bounds_def nat_less_iff)
  have "list_all (\<lambda>v. v = 0 \<or> v = 1) (g ! nat (fst d))"
    using assms(2) m by (simp add: binary_def list_all_iff)
  then show ?thesis using j by (simp add: cell_value_def list_all_length)
qed

text \<open>
  Claim C4. On a rectangular grid of zeros and ones and a cell inside it, \<^verbatim>\<open>valid_actions\<close>
  returns a list, and the destination of each action of the list is inside the grid and
  holds 0.
\<close>

theorem valid_actions_destinations:
  assumes "rect g" "binary g" "in_bounds g c"
  shows "\<exists>acts. valid_actions g c = Inr acts \<and>
           (\<forall>a\<in>set acts. in_bounds g (move c a) \<and> cell_value g (move c a) = 0)"
proof -
  have "free_dest g c a \<Longrightarrow> in_bounds g (move c a) \<and> cell_value g (move c a) = 0" for a
    using binary_cell[OF assms(1,2), of "move c a"] by (auto simp: free_dest_def)
  then show ?thesis by (simp add: valid_actions_filter[OF assms(3)])
qed

theorem valid_actions_destinations_witness:
  "rect example_grid \<and> binary example_grid \<and> in_bounds example_grid (2, 2) \<and>
   (\<exists>acts. valid_actions example_grid (2, 2) = Inr acts \<and>
           (\<forall>a\<in>set acts. in_bounds example_grid (move (2, 2) a) \<and>
                           cell_value example_grid (move (2, 2) a) = 0))"
proof -
  have h: "rect example_grid" "binary example_grid" "in_bounds example_grid (2, 2)"
    by (simp_all add: rect_def binary_def in_bounds_def example_grid_def shape0_def shape1_def)
  show ?thesis using h valid_actions_destinations[OF h] by simp
qed

text \<open>
  Claim C5, as stated: the list returned is a subsequence of UP, DOWN, LEFT, RIGHT, UP-LEFT,
  UP-RIGHT, DOWN-LEFT, DOWN-RIGHT. At \<open>(2, 2)\<close> of the notebook's grid the source returns
  RIGHT before DOWN.
\<close>

theorem spec_order_counterexample:
  "valid_actions example_grid (2, 2) = Inr [UP, RIGHT, DOWN, DOWN_RIGHT] \<and>
   \<not> subseq [UP, RIGHT, DOWN, DOWN_RIGHT] spec_order"
  by (simp add: run_simps spec_order_def)

text \<open>
  Claim C5, amended: the list returned for a cell inside the grid is the initial list of the
  source, UP, LEFT, RIGHT, DOWN, UP-LEFT, UP-RIGHT, DOWN-LEFT, DOWN-RIGHT, filtered; it is a
  subsequence of that list.
\<close>

theorem valid_actions_order:
  assumes "in_bounds g c"
  shows "\<exists>acts. valid_actions g c = Inr acts \<and> acts = filter (free_dest g c) source_order \<and>
           subseq acts source_order"
  by (simp add: valid_actions_filter[OF assms])

theorem valid_actions_order_witness:
  "in_bounds example_grid (2, 2) \<and>
   (\<exists>acts. valid_actions example_grid (2, 2) = Inr acts \<and>
      acts = filter (free_dest example_grid (2, 2)) source_order \<and> subseq acts source_order)"
proof -
  have h: "in_bounds example_grid (2, 2)"
    by (simp add: in_bounds_def example_grid_def shape0_def shape1_def)
  show ?thesis using h valid_actions_order[OF h] by simp
qed

section \<open>Results of \<^verbatim>\<open>uniform_cost\<close>\<close>


lemma reconstruct_traces:
  assumes "traces b start goal path"
  shows "reconstruct True b start goal = Some (Inr (path, total_cost path))"
proof -
  obtain p a where "b goal = Some (total_cost path, p, a)"
    using traces_cost[OF assms] by blast
  moreover have "retrace b start goal [] = Some (Inr (rev path))"
    using traces_retrace[OF assms, of "[]"] by simp
  ultimately show ?thesis by (simp add: reconstruct_def lookup_def)
qed

lemma uniform_cost_total:
  assumes "in_bounds g start" and "start \<noteq> goal"
  shows "\<exists>found b. search_loop g goal (init start) = Some (Inr (found, b)) \<and>
           (found \<longrightarrow> reachable g start goal) \<and>
           (if found
            then \<exists>path. uniform_cost g start goal = Some (Inr (path, total_cost path)) \<and>
                        walk start path = goal
            else uniform_cost g start goal = Some (Inr ([], 0)))"
proof -
  have "inv g start (init start)" using assms(1) by (rule init_inv)
  then obtain found b where
    s: "search_loop g goal (init start) = Some (Inr (found, b))" and
    f: "found \<longrightarrow> reachable g start goal \<and> (\<exists>path. traces b start goal path)"
    using search_loop_total[of g start "init start" goal] assms(2) by blast
  have u: "uniform_cost g start goal = reconstruct found b start goal"
    using s by (simp add: uniform_cost_def)
  have "if found
        then \<exists>path. uniform_cost g start goal = Some (Inr (path, total_cost path)) \<and>
                    walk start path = goal
        else uniform_cost g start goal = Some (Inr ([], 0))"
  proof (cases found)
    case True
    then obtain path where t: "traces b start goal path" using f by blast
    have "uniform_cost g start goal = Some (Inr (path, total_cost path))"
      using u True reconstruct_traces[OF t] by simp
    then show ?thesis using True traces_walk[OF t] by auto
  next
    case False
    then show ?thesis using u by (simp add: reconstruct_def)
  qed
  then show ?thesis using s f by blast
qed

text \<open>
  Claim C7. When the start cell is inside the grid and no chain of moves to free neighbours
  leads from it to the goal, the loop ends with \<^verbatim>\<open>found = False\<close> and \<^verbatim>\<open>uniform_cost\<close>
  returns the empty path with cost 0, a value and not an error.
\<close>

theorem unreachable_goal:
  assumes "in_bounds g start" and "\<not> reachable g start goal"
  shows "(\<exists>b. search_loop g goal (init start) = Some (Inr (False, b))) \<and>
         uniform_cost g start goal = Some (Inr ([], 0))"
proof -
  have "start \<noteq> goal" using assms(2) by (auto simp: reachable_def)
  from uniform_cost_total[OF assms(1) this] assms(2) show ?thesis by auto
qed

lemma enclosed_unreachable: "\<not> reachable enclosed_grid (0, 0) (0, 2)"
proof
  assume r: "reachable enclosed_grid (0, 0) (0, 2)"
  have "(0, 2) \<in> {(0, 0), (1, 0)::cell}"
  proof (rule reachable_closed[OF r])
    show "(0, 0) \<in> {(0, 0), (1, 0)::cell}" by simp
  next
    fix c d :: cell
    assume c: "c \<in> {(0, 0), (1, 0)}" and s: "free_step enclosed_grid c d"
    obtain u v where d: "d = (u, v)" by (cases d)
    have "u \<in> {0, 1}" "v \<in> {0, 1, 2}"
      using s by (auto simp: d free_step_def in_bounds_def enclosed_grid_def shape0_def shape1_def)
    then show "d \<in> {(0, 0), (1, 0)}"
      using s c by (auto simp: d free_step_def cell_value_def enclosed_grid_def)
  qed
  then show False by simp
qed

theorem unreachable_goal_witness:
  "in_bounds enclosed_grid (0, 0) \<and> \<not> reachable enclosed_grid (0, 0) (0, 2) \<and>
   (\<exists>b. search_loop enclosed_grid (0, 2) (init (0, 0)) = Some (Inr (False, b))) \<and>
   uniform_cost enclosed_grid (0, 0) (0, 2) = Some (Inr ([], 0))"
proof -
  have h: "in_bounds enclosed_grid (0, 0)"
    by (simp add: in_bounds_def enclosed_grid_def shape0_def shape1_def)
  show ?thesis using h enclosed_unreachable unreachable_goal[OF h enclosed_unreachable] by simp
qed

text \<open>
  Claim C8. When the start cell is inside the grid and the loop ends with \<^verbatim>\<open>found = True\<close>:
  for \<open>start \<noteq> goal\<close> the path returned leads from \<open>start\<close> to \<open>goal\<close> and the cost
  returned is the sum of the costs of its actions; for \<open>start = goal\<close> the source raises
  \<^verbatim>\<open>KeyError\<close> and returns no path, where the claim asks for one.
\<close>

theorem found_path:
  assumes "in_bounds g start" and "search_loop g goal (init start) = Some (Inr (True, b))"
  shows "if start = goal then uniform_cost g start goal = Some (Inl KeyError)
         else \<exists>path. uniform_cost g start goal = Some (Inr (path, total_cost path)) \<and>
                     walk start path = goal"
proof (cases "start = goal")
  case True
  have "search_loop g goal (init goal) = Some (Inr (True, Map.empty))"
    by (subst search_loop.simps) (simp add: init_def)
  then show ?thesis using True by (simp add: uniform_cost_def reconstruct_def lookup_def)
next
  case False
  from uniform_cost_total[OF assms(1) False] assms(2) show ?thesis using False by auto
qed

theorem found_path_witness:
  "in_bounds example_grid (0, 0) \<and>
   search_loop example_grid (0, 0) (init (0, 0)) = Some (Inr (True, Map.empty)) \<and>
   uniform_cost example_grid (0, 0) (0, 0) = Some (Inl KeyError) \<and>
   (\<exists>b. search_loop example_grid (2, 2) (init (0, 0)) = Some (Inr (True, b))) \<and>
   (\<exists>path. uniform_cost example_grid (0, 0) (2, 2) = Some (Inr (path, total_cost path)) \<and>
           walk (0, 0) path = (2, 2))"
proof -
  have h: "in_bounds example_grid (0, 0)"
    by (simp add: in_bounds_def example_grid_def shape0_def shape1_def)
  have s0: "search_loop example_grid (0, 0) (init (0, 0)) = Some (Inr (True, Map.empty))"
    by (simp add: run_simps)
  obtain b where s1: "search_loop example_grid (2, 2) (init (0, 0)) = Some (Inr (True, b))"
    by (simp add: run_simps)
  show ?thesis using h s0 s1 found_path[OF h s0] found_path[OF h s1] by auto
qed

text \<open>
  Claim C9, as stated: a start or goal outside the grid or on an obstacle is signalled as an
  error before the loop. On the notebook's grid the source searches from the obstacle
  \<open>(0, 1)\<close> and from \<open>(-1, 0)\<close>, which numpy reads as a cell of the last row, and returns a
  path; for the goal \<open>(7, 7)\<close> it returns the empty path.
\<close>

theorem bad_endpoints_counterexample:
  "cell_value example_grid (0, 1) = 1 \<and>
   uniform_cost example_grid (0, 1) (0, 2) = Some (Inr ([RIGHT], 1)) \<and>
   \<not> in_bounds example_grid (-1, 0) \<and>
   uniform_cost example_grid (-1, 0) (0, 0) = Some (Inr ([DOWN], 1)) \<and>
   \<not> in_bounds example_grid (7, 7) \<and>
   uniform_cost example_grid (0, 0) (7, 7) = Some (Inr ([], 0))"
  by (simp add: run_simps cell_value_def in_bounds_def)

lemma free_path_append:
  "free_path g c (path @ [a]) = (free_path g c path \<and> free_dest g (walk c path) a)"
  by (induction path arbitrary: c) (simp_all add: walk_def)

lemma traces_free_path:
  "traces b start c path \<Longrightarrow> free_branch g b \<Longrightarrow> free_path g start path"
proof (induction rule: traces.induct)
  case (first c a)
  then have "free_dest g start a" unfolding free_branch_def by blast
  then show ?case by simp
next
  case (later p path k p' a' c a)
  have "free_dest g p a" using later.hyps(4) later.prems unfolding free_branch_def by blast
  moreover have "walk start path = p" using later.hyps(1) by (rule traces_walk)
  ultimately show ?case using later by (simp add: free_path_append)
qed

lemma init_settled: "settled g start goal (init start)"
  by (auto simp: settled_def init_def)

text \<open>
  From a start inside the grid and for another goal, the result is decided by reachability:
  a path of free moves to the goal with its cost, or the empty path with cost 0.
\<close>

lemma uniform_cost_exact:
  assumes "in_bounds g start" and "start \<noteq> goal"
  shows "if reachable g start goal
         then \<exists>path. uniform_cost g start goal = Some (Inr (path, total_cost path)) \<and>
                     free_path g start path \<and> walk start path = goal
         else uniform_cost g start goal = Some (Inr ([], 0))"
proof -
  have i: "inv g start (init start)" using assms(1) by (rule init_inv)
  obtain found b where
    s: "search_loop g goal (init start) = Some (Inr (found, b))" and
    f: "found \<longrightarrow> (\<exists>path. traces b start goal path)"
    using search_loop_total[of g start "init start" goal] i assms(2) by blast
  obtain found' b' where
    s': "search_loop g goal (init start) = Some (Inr (found', b'))" and
    f': "found' \<longleftrightarrow> reachable g start goal" "free_branch g b'"
    using search_loop_exact[of g start "init start" goal] i assms(2) init_settled[of g start goal]
    by (auto simp: init_def free_branch_def)
  have e: "found' = found" "b' = b" using s s' by simp_all
  have u: "uniform_cost g start goal = reconstruct found b start goal"
    using s by (simp add: uniform_cost_def)
  show ?thesis
  proof (cases "reachable g start goal")
    case True
    then obtain path where t: "traces b start goal path" using f f'(1) e by blast
    have "uniform_cost g start goal = Some (Inr (path, total_cost path))"
      using u True f'(1) e reconstruct_traces[OF t] by simp
    moreover have "free_path g start path" using t f'(2) e by (auto intro: traces_free_path)
    ultimately show ?thesis using True traces_walk[OF t] by auto
  next
    case False
    then show ?thesis using u f'(1) e by (simp add: reconstruct_def)
  qed
qed

lemma reachable_goal_free:
  assumes "reachable g start goal" and "start \<noteq> goal"
  shows "in_bounds g goal \<and> cell_value g goal \<noteq> 1"
proof -
  from assms have "\<exists>c. free_step g c goal"
    unfolding reachable_def by (metis rtranclp.cases)
  then obtain c where "free_step g c goal" ..
  then show ?thesis by (simp add: free_step_def)
qed

lemma bind_err_IndexError:
  assumes "bind_err r f = Inl e" and "\<And>e. r = Inl e \<Longrightarrow> e = IndexError"
    and "\<And>v e. f v = Inl e \<Longrightarrow> e = IndexError"
  shows "e = IndexError"
  using assms by (cases r) (auto simp: bind_err_def)

lemma drop_when_IndexError:
  "drop_when (por a (is_one g i j)) x valid = Inl e \<Longrightarrow> e = IndexError"
  by (auto simp: drop_when_def por_def is_one_def getitem_def bind_err_def split: if_splits)

lemma valid_actions_IndexError: "valid_actions g c = Inl e \<Longrightarrow> e = IndexError"
  unfolding valid_actions_def Let_def
  by (erule bind_err_IndexError, erule drop_when_IndexError)+ simp

lemma valid_actions_below:
  assumes "shape0 g < fst c"
  shows "valid_actions g c = Inl IndexError"
proof -
  have "0 \<le> shape0 g" by (simp add: shape0_def)
  then have "por (fst c - 1 < 0) (is_one g (fst c - 1) (snd c)) = Inl IndexError"
    using assms by (simp add: por_def is_one_def getitem_def bind_err_def)
  then show ?thesis by (simp add: valid_actions_def Let_def drop_when_def bind_err_def)
qed

lemma uniform_cost_first_error:
  assumes "start \<noteq> goal" and "valid_actions g start = Inl e"
  shows "uniform_cost g start goal = Some (Inl e)"
proof -
  have "search_loop g goal (init start) = Some (Inl e)"
    using assms by (intro search_loop_error[where k = 0 and q = "[]"]) (simp_all add: init_def)
  then show ?thesis by (simp add: uniform_cost_def)
qed

text \<open>
  Claim C9, amended. For every grid and every goal other than the start:
  from a start inside the grid, free or occupied, no error is signalled and the result is
  that of the search from it, a path of moves to free neighbours from start to goal with
  the sum of its costs when the goal is reachable by such moves, and the empty path with
  cost 0 when it is not; a goal outside the grid or on an obstacle is never reachable, so
  it gives the empty path with cost 0.
  A start outside the grid is not rejected but passed to \<^verbatim>\<open>valid_actions\<close> in the first
  round of the loop: when that call raises, which it does only with \<^verbatim>\<open>IndexError\<close> and
  always for a start whose row index is greater than the number of rows, the call of
  \<^verbatim>\<open>uniform_cost\<close> raises \<^verbatim>\<open>IndexError\<close>.
\<close>

theorem no_endpoint_check:
  assumes "start \<noteq> goal"
  shows "(in_bounds g start \<longrightarrow>
            (if reachable g start goal
             then \<exists>path. uniform_cost g start goal = Some (Inr (path, total_cost path)) \<and>
                         free_path g start path \<and> walk start path = goal
             else uniform_cost g start goal = Some (Inr ([], 0)))) \<and>
         (\<not> in_bounds g goal \<or> cell_value g goal = 1 \<longrightarrow> \<not> reachable g start goal) \<and>
         (\<forall>e. valid_actions g start = Inl e \<longrightarrow>
              e = IndexError \<and> uniform_cost g start goal = Some (Inl IndexError)) \<and>
         (shape0 g < fst start \<longrightarrow> valid_actions g start = Inl IndexError)"
proof (intro conjI impI allI)
  assume "in_bounds g start"
  then show "if reachable g start goal
             then \<exists>path. uniform_cost g start goal = Some (Inr (path, total_cost path)) \<and>
                         free_path g start path \<and> walk start path = goal
             else uniform_cost g start goal = Some (Inr ([], 0))"
    using assms by (rule uniform_cost_exact)
next
  assume "\<not> in_bounds g goal \<or> cell_value g goal = 1"
  then show "\<not> reachable g start goal" using reachable_goal_free[OF _ assms] by blast
next
  fix e assume v: "valid_actions g start = Inl e"
  then show "e = IndexError" by (rule valid_actions_IndexError)
  then show "uniform_cost g start goal = Some (Inl IndexError)"
    using uniform_cost_first_error[OF assms v] by simp
next
  assume "shape0 g < fst start"
  then show "valid_actions g start = Inl IndexError" by (rule valid_actions_below)
qed

lemma example_step: "reachable example_grid (0, 1) (0, 2)"
  unfolding reachable_def
  by (rule r_into_rtranclp)
    (simp add: free_step_def in_bounds_def cell_value_def example_grid_def shape0_def shape1_def)

theorem no_endpoint_check_witness:
  "(0, 1) \<noteq> ((7, 7)::cell) \<and> in_bounds example_grid (0, 1) \<and>
   cell_value example_grid (0, 1) = 1 \<and> \<not> in_bounds example_grid (7, 7) \<and>
   \<not> reachable example_grid (0, 1) (7, 7) \<and>
   uniform_cost example_grid (0, 1) (7, 7) = Some (Inr ([], 0)) \<and>
   (0, 1) \<noteq> ((0, 2)::cell) \<and> reachable example_grid (0, 1) (0, 2) \<and>
   (\<exists>path. uniform_cost example_grid (0, 1) (0, 2) = Some (Inr (path, total_cost path)) \<and>
           free_path example_grid (0, 1) path \<and> walk (0, 1) path = (0, 2)) \<and>
   (5, 1) \<noteq> ((4, 4)::cell) \<and> valid_actions example_grid (5, 1) = Inl IndexError \<and>
   uniform_cost example_grid (5, 1) (4, 4) = Some (Inl IndexError) \<and>
   (6, 0) \<noteq> ((4, 4)::cell) \<and> shape0 example_grid < fst ((6, 0)::cell) \<and>
   valid_actions example_grid (6, 0) = Inl IndexError \<and>
   uniform_cost example_grid (6, 0) (4, 4) = Some (Inl IndexError)"
proof -
  have h: "(0, 1) \<noteq> ((7, 7)::cell)" "in_bounds example_grid (0, 1)"
    "cell_value example_grid (0, 1) = 1" "\<not> in_bounds example_grid (7, 7)"
    "(0, 1) \<noteq> ((0, 2)::cell)" "(5, 1) \<noteq> ((4, 4)::cell)"
    "(6, 0) \<noteq> ((4, 4)::cell)" "shape0 example_grid < fst ((6, 0)::cell)"
    by (simp_all add: in_bounds_def cell_value_def example_grid_def shape0_def shape1_def)
  have v: "valid_actions example_grid (5, 1) = Inl IndexError"
    by (simp add: run_simps)
  note a = no_endpoint_check[OF h(1), of example_grid]
    and b = no_endpoint_check[OF h(5), of example_grid]
    and c = no_endpoint_check[OF h(6), of example_grid]
    and d = no_endpoint_check[OF h(7), of example_grid]
  have 1: "\<not> reachable example_grid (0, 1) (7, 7)" using a h(4) by blast
  then have 2: "uniform_cost example_grid (0, 1) (7, 7) = Some (Inr ([], 0))"
    using a h(2) by simp
  have 3: "\<exists>path. uniform_cost example_grid (0, 1) (0, 2) = Some (Inr (path, total_cost path)) \<and>
           free_path example_grid (0, 1) path \<and> walk (0, 1) path = (0, 2)"
    using b h(2) example_step by simp
  have 4: "uniform_cost example_grid (5, 1) (4, 4) = Some (Inl IndexError)"
    using c v by blast
  have 5: "valid_actions example_grid (6, 0) = Inl IndexError" using d h(8) by blast
  then have 6: "uniform_cost example_grid (6, 0) (4, 4) = Some (Inl IndexError)"
    using d by blast
  show ?thesis using h v example_step 1 2 3 4 5 6 by blast
qed

section \<open>The current cell's own value\<close>


lemma move_neq: "move c a \<noteq> c"
  by (cases c; cases a) (simp_all add: move_def)

lemma set_cell_other:
  assumes "d \<noteq> c" "0 \<le> fst c" "0 \<le> snd c" "0 \<le> fst d" "0 \<le> snd d"
  shows "cell_value (set_cell g c v) d = cell_value g d"
proof (cases "nat (fst d) = nat (fst c)")
  case True
  then have "nat (snd d) \<noteq> nat (snd c)" using assms by (auto simp: prod_eq_iff)
  then show ?thesis using True
    by (cases "nat (fst c) < length g") (simp_all add: cell_value_def set_cell_def list_update_beyond)
next
  case False
  then show ?thesis by (simp add: cell_value_def set_cell_def)
qed

lemma shape_set_cell:
  "in_bounds g c \<Longrightarrow> shape0 (set_cell g c v) = shape0 g \<and> shape1 (set_cell g c v) = shape1 g"
  by (cases g; cases "nat (fst c)") (auto simp: set_cell_def shape0_def shape1_def in_bounds_def)

text \<open>
  Claim C10. \<^verbatim>\<open>valid_actions\<close> does not read the value of the current cell: on two grids
  of the same shape that agree everywhere but at a cell inside them it returns the same list
  for that cell, the actions whose destination is inside the grid and free.
\<close>

theorem own_cell_not_read:
  assumes "in_bounds g c" and "shape0 g' = shape0 g" and "shape1 g' = shape1 g"
    and "\<forall>d. d \<noteq> c \<longrightarrow> in_bounds g d \<longrightarrow> cell_value g' d = cell_value g d"
  shows "valid_actions g' c = valid_actions g c \<and>
         (\<exists>acts. valid_actions g c = Inr acts \<and> (\<forall>a. a \<in> set acts \<longleftrightarrow> free_dest g c a))"
proof -
  have b: "in_bounds g' d = in_bounds g d" for d
    using assms(2,3) by (simp add: in_bounds_def)
  have "free_dest g' c a = free_dest g c a" for a
  proof (cases "in_bounds g (move c a)")
    case True
    then have "cell_value g' (move c a) = cell_value g (move c a)"
      using assms(4) move_neq[of c a] by blast
    then show ?thesis by (simp add: free_dest_def b)
  next
    case False
    then show ?thesis by (simp add: free_dest_def b)
  qed
  then have "filter (free_dest g' c) source_order = filter (free_dest g c) source_order"
    by presburger
  moreover have "in_bounds g' c" using assms(1) by (simp add: b)
  ultimately show ?thesis
    using assms(1) by (simp add: valid_actions_filter all_actions)
qed

theorem own_cell_not_read_witness:
  "in_bounds example_grid (2, 2) \<and>
   shape0 (set_cell example_grid (2, 2) 1) = shape0 example_grid \<and>
   shape1 (set_cell example_grid (2, 2) 1) = shape1 example_grid \<and>
   cell_value example_grid (2, 2) = 0 \<and> cell_value (set_cell example_grid (2, 2) 1) (2, 2) = 1 \<and>
   valid_actions (set_cell example_grid (2, 2) 1) (2, 2) = valid_actions example_grid (2, 2) \<and>
   valid_actions example_grid (2, 2) = Inr [UP, RIGHT, DOWN, DOWN_RIGHT]"
proof -
  let ?g = "set_cell example_grid (2, 2) 1"
  have h: "in_bounds example_grid (2, 2)"
    by (simp add: in_bounds_def example_grid_def shape0_def shape1_def)
  have s: "shape0 ?g = shape0 example_grid" "shape1 ?g = shape1 example_grid"
    using shape_set_cell[OF h] by simp_all
  have o: "\<forall>d. d \<noteq> (2, 2) \<longrightarrow> in_bounds example_grid d \<longrightarrow>
             cell_value ?g d = cell_value example_grid d"
    by (auto simp: in_bounds_def intro!: set_cell_other)
  have v: "cell_value example_grid (2, 2) = 0" "cell_value ?g (2, 2) = 1"
    "valid_actions example_grid (2, 2) = Inr [UP, RIGHT, DOWN, DOWN_RIGHT]"
    by (simp_all add: run_simps cell_value_def set_cell_def)
  show ?thesis using h s v own_cell_not_read[OF h s o] by simp
qed

section \<open>The cells painted by \<^verbatim>\<open>create_grid\<close>\<close>






























end
